theory Spec2Isabelle
  imports Main "HOL-Library.Multiset" "HOL-Library.Sublist"
begin

section \<open>A model of bow\_dbnl.py\<close>

text \<open>
  The script is a linear pipeline: \<open>get_files\<close>, \<open>pick_random\<close>, \<open>extract_tei\<close>,
  \<open>create_bow\<close>, \<open>output_bow\<close>. Each stage is modelled by a function of the same name.
  A Python \<open>str\<close> is a \<open>string\<close>, one \<open>char\<close> per character; a Python \<open>int\<close> is an
  \<open>int\<close>. What the script takes from outside (the nltk tokenizers, the Unicode tables
  behind \<open>str.lower\<close> and the regular-expression classes, the random generator, the file
  system) is a parameter of the model. Progress printing is left out.
\<close>

subsection \<open>Exceptions\<close>

text \<open>
  The script catches nothing, so an exception ends the run. \<open>IndexError\<close> comes from
  \<open>tei_body[1]\<close> and \<open>sys.argv[1]\<close>; \<open>OSError\<close> stands for a failing \<open>open\<close> (or a
  failing read or decoding of the file), with the path.
\<close>

datatype exn = IndexError | OSError string

subsection \<open>OrderedDict\<close>

text \<open>
  An \<open>OrderedDict\<close> is the list of its items in insertion order; its keys are distinct.
  Assigning to a key that is present keeps the key's position, assigning to a new key
  appends the item.
\<close>

definition od_set :: "(string \<times> int) list \<Rightarrow> string \<Rightarrow> int \<Rightarrow> (string \<times> int) list" where
  "od_set d k v =
     (if k \<in> set (map fst d)
      then map (\<lambda>(k', v'). if k' = k then (k', v) else (k', v')) d
      else d @ [(k, v)])"

definition od_of_items :: "(string \<times> int) list \<Rightarrow> (string \<times> int) list" where
  \<comment> \<open>\<open>OrderedDict(items)\<close>: the items are assigned one after the other\<close>
  "od_of_items items = foldl (\<lambda>d (k, v). od_set d k v) [] items"

subsection \<open>create\_bow\<close>

definition count_word :: "(string \<times> int) list \<Rightarrow> string \<Rightarrow> (string \<times> int) list" where
  \<comment> \<open>the body of the inner loop\<close>
  "count_word dict_wordfreq word =
     (if length word > 2
      then (case map_of dict_wordfreq word of
              None \<Rightarrow> od_set dict_wordfreq word 1
            | Some c \<Rightarrow> od_set dict_wordfreq word (c + 1))
      else dict_wordfreq)"

definition count_words :: "(string \<Rightarrow> string list) \<Rightarrow> string list \<Rightarrow> (string \<times> int) list" where
  \<comment> \<open>the two loops: \<open>dict_wordfreq\<close> before it is sorted\<close>
  "count_words word_tok flat_text =
     foldl (\<lambda>d sen. foldl count_word d (word_tok sen)) [] flat_text"

definition sorted_reverse :: "('a \<Rightarrow> 'k::linorder) \<Rightarrow> 'a list \<Rightarrow> 'a list" where
  \<comment> \<open>\<open>sorted(xs, key=key, reverse=True)\<close>: the list is reversed, sorted by a stable
      ascending sort, and reversed again\<close>
  "sorted_reverse key xs = rev (sort_key key (rev xs))"

definition create_bow :: "(string \<Rightarrow> string list) \<Rightarrow> string list \<Rightarrow> (string \<times> int) list" where
  "create_bow word_tok flat_text =
     od_of_items (sorted_reverse snd (count_words word_tok flat_text))"

subsection \<open>output\_bow\<close>

fun str_nat :: "nat \<Rightarrow> string" where
  "str_nat n =
     (if n < 10 then [''0123456789'' ! n]
      else str_nat (n div 10) @ [''0123456789'' ! (n mod 10)])"

declare str_nat.simps [simp del]

definition str_int :: "int \<Rightarrow> string" where
  "str_int i = (if i < 0 then ''-'' @ str_nat (nat (- i)) else str_nat (nat i))"

definition bow_length :: "(string \<times> int) list \<Rightarrow> int \<Rightarrow> nat" where
  \<comment> \<open>\<open>BOW_LENGTH\<close> after the first two lines of \<open>output_bow\<close>\<close>
  "bow_length dict_sorted BOW_LENGTH =
     (if BOW_LENGTH \<le> 0 \<or> BOW_LENGTH > int (length dict_sorted)
      then length dict_sorted else nat BOW_LENGTH)"

definition output_rows :: "(string \<times> int) list \<Rightarrow> int \<Rightarrow> (string \<times> int) list" where
  \<comment> \<open>the key and the value read at each index of the writing loop\<close>
  "output_rows dict_sorted BOW_LENGTH =
     map (\<lambda>i. (map fst dict_sorted ! i, map snd dict_sorted ! i))
       [0 ..< bow_length dict_sorted BOW_LENGTH]"

definition output_line :: "string \<times> int \<Rightarrow> string" where
  "output_line row = fst row @ [CHR 0x09] @ str_int (snd row) @ [CHR 0x0A]"

definition output_bow ::
  "(string \<Rightarrow> bool) \<Rightarrow> (string \<times> int) list \<Rightarrow> int \<Rightarrow> string \<Rightarrow> exn + string list" where
  \<comment> \<open>the result is the sequence of strings written to the file, one \<open>write\<close> each;
      \<open>can_open\<close> says whether \<open>open(OUTPUT_TXT, 'w')\<close> succeeds\<close>
  "output_bow can_open dict_sorted BOW_LENGTH OUTPUT_TXT =
     (if can_open OUTPUT_TXT
      then Inr (map output_line (output_rows dict_sorted BOW_LENGTH))
      else Inl (OSError OUTPUT_TXT))"

subsection \<open>extract\_tei\<close>

record textlib =
  str_lower :: "string \<Rightarrow> string"
  is_word_char :: "char \<Rightarrow> bool"
  is_space_char :: "char \<Rightarrow> bool"
  sent_tokenize :: "string \<Rightarrow> string list"

text \<open>
  \<open>str_lower\<close> is \<open>str.lower\<close>, \<open>is_word_char\<close> the class \<open>\w\<close> and \<open>is_space_char\<close> the
  class \<open>\s\<close> of the \<open>re\<close> module, \<open>sent_tokenize\<close> is nltk's.
\<close>

function re_split_from :: "string \<Rightarrow> string \<Rightarrow> string \<Rightarrow> string list" where
  "re_split_from pat acc [] = [rev acc]"
| "re_split_from pat acc (c # cs) =
     (if pat \<noteq> [] \<and> prefix pat (c # cs)
      then rev acc # re_split_from pat [] (drop (length pat) (c # cs))
      else re_split_from pat (c # acc) cs)"
  by pat_completeness auto
termination
  by (relation "measure (\<lambda>(pat, acc, s). length s)") auto

definition re_split :: "string \<Rightarrow> string \<Rightarrow> string list" where
  \<comment> \<open>\<open>re.split(pat, s)\<close> for a pattern that is a non-empty literal: the pieces of \<open>s\<close>
      between the matches, found from left to right without overlap\<close>
  "re_split pat s = re_split_from pat [] s"

function replace_lit :: "string \<Rightarrow> string \<Rightarrow> string \<Rightarrow> string" where
  "replace_lit old new [] = []"
| "replace_lit old new (c # cs) =
     (if old \<noteq> [] \<and> prefix old (c # cs)
      then new @ replace_lit old new (drop (length old) (c # cs))
      else c # replace_lit old new cs)"
  by pat_completeness auto
termination
  by (relation "measure (\<lambda>(old, new, s). length s)") auto

text \<open>
  \<open>replace_lit\<close> is \<open>s.replace(old, new)\<close>, and \<open>re.sub(old, new, s)\<close> for a literal
  pattern, \<open>old\<close> not empty.
\<close>

definition tag_end :: "string \<Rightarrow> nat option" where
  \<comment> \<open>\<open>cs\<close> follows a \<open><\<close>. The pattern \<open><[^<]+>\<close> matches there when the run of
      characters other than \<open><\<close> has a \<open>>\<close> after its first character; the greedy \<open>+\<close> takes
      the last one. The result is its index in \<open>cs\<close>.\<close>
  "tag_end cs =
     (let run = takeWhile (\<lambda>c. c \<noteq> CHR ''<'') cs;
          ends = filter (\<lambda>n. run ! n = CHR ''>'') [1 ..< length run]
      in if ends = [] then None else Some (last ends))"

function strip_tags :: "string \<Rightarrow> string" where
  "strip_tags [] = []"
| "strip_tags (c # cs) =
     (if c = CHR ''<''
      then (case tag_end cs of
              Some n \<Rightarrow> strip_tags (drop (Suc n) cs)
            | None \<Rightarrow> c # strip_tags cs)
      else c # strip_tags cs)"
  by pat_completeness auto
termination
  by (relation "measure length") auto

text \<open>\<open>strip_tags s\<close> is \<open>re.sub(r'<[^<]+>', '', s)\<close>.\<close>

function collapse_spaces :: "(char \<Rightarrow> bool) \<Rightarrow> string \<Rightarrow> string" where
  "collapse_spaces sp [] = []"
| "collapse_spaces sp (c # cs) =
     (if sp c then CHR '' '' # collapse_spaces sp (dropWhile sp cs)
      else c # collapse_spaces sp cs)"
  by pat_completeness auto
termination
  by (relation "measure (\<lambda>(sp, s). length s)") (auto simp: length_dropWhile_le less_Suc_eq_le)

text \<open>\<open>collapse_spaces sp s\<close> is \<open>re.sub(r'\s+', ' ', s)\<close>, with \<open>sp\<close> the class \<open>\s\<close>.\<close>

definition body_marker :: string where
  "body_marker = ''<body>''"

definition tei_body_1 :: "string \<Rightarrow> exn + string" where
  \<comment> \<open>\<open>re.split(r'<body>', tei)[1]\<close>\<close>
  "tei_body_1 tei =
     (case re_split body_marker tei of
        _ # body # _ \<Rightarrow> Inr body
      | _ \<Rightarrow> Inl IndexError)"

definition clean_sentence :: "textlib \<Rightarrow> string \<Rightarrow> string" where
  \<comment> \<open>the four substitutions made on each sentence\<close>
  "clean_sentence L s =
     collapse_spaces (is_space_char L)
       (map (\<lambda>c. if is_word_char L c then c else CHR '' '')
          (replace_lit ''&amp;'' '' '' (replace_lit ''&nbsp;'' '' '' s)))"

definition body_sentences :: "textlib \<Rightarrow> string \<Rightarrow> string list" where
  \<comment> \<open>what the loop body makes of the text \<open>tei_body[1]\<close>\<close>
  "body_sentences L body =
     map (clean_sentence L)
       (sent_tokenize L (str_lower L (strip_tags (replace_lit [CHR 0x0A] '' '' body))))"

definition doc_sentences :: "textlib \<Rightarrow> string \<Rightarrow> exn + string list" where
  \<comment> \<open>the sentences of one document, from its content\<close>
  "doc_sentences L tei =
     (case tei_body_1 tei of
        Inl e \<Rightarrow> Inl e
      | Inr body \<Rightarrow> Inr (body_sentences L body))"

fun extract_loop ::
  "textlib \<Rightarrow> (string \<Rightarrow> string option) \<Rightarrow> string list \<Rightarrow> string list \<Rightarrow> exn + string list" where
  "extract_loop L read_text flat_text [] = Inr flat_text"
| "extract_loop L read_text flat_text (tei_file # rest) =
     (case read_text tei_file of
        None \<Rightarrow> Inl (OSError tei_file)
      | Some tei \<Rightarrow>
          (case doc_sentences L tei of
             Inl e \<Rightarrow> Inl e
           | Inr sens \<Rightarrow> extract_loop L read_text (flat_text @ sens) rest))"

definition extract_tei ::
  "textlib \<Rightarrow> (string \<Rightarrow> string option) \<Rightarrow> string list \<Rightarrow> exn + string list" where
  \<comment> \<open>\<open>read_text\<close> gives the content of the file at a path, or \<open>None\<close> when it cannot be
      opened and read\<close>
  "extract_tei L read_text tei_files = extract_loop L read_text [] tei_files"

subsection \<open>get\_files\<close>

text \<open>
  A directory tree, as \<open>os.walk\<close> sees it: a file, a directory with its entries in the
  order \<open>os.scandir\<close> lists them, or a directory that cannot be listed. \<open>os.walk\<close> is
  called with its defaults: top-down, and with no \<open>onerror\<close>, so that a directory whose
  listing fails is passed over without a word, as is a top that does not exist.
  Symbolic links are not modelled.
\<close>

datatype dirent = File | Dir "(string \<times> dirent) list" | Unlistable

fun is_dir :: "dirent \<Rightarrow> bool" where
  "is_dir File = False"
| "is_dir (Dir es) = True"
| "is_dir Unlistable = True"

definition os_path_join :: "string \<Rightarrow> string \<Rightarrow> string" where
  "os_path_join a b =
     (if prefix ''/'' b then b
      else if a = [] \<or> suffix ''/'' a then a @ b
      else a @ ''/'' @ b)"

fun os_walk :: "string \<Rightarrow> dirent \<Rightarrow> (string \<times> string list \<times> string list) list" where
  "os_walk dir_top (Dir es) =
     (dir_top, map fst (filter (\<lambda>e. is_dir (snd e)) es),
           map fst (filter (\<lambda>e. \<not> is_dir (snd e)) es))
     # concat (map (\<lambda>e. if is_dir (snd e) then os_walk (os_path_join dir_top (fst e)) (snd e) else []) es)"
| "os_walk dir_top File = []"
| "os_walk dir_top Unlistable = []"

definition walk_files :: "string \<times> string list \<times> string list \<Rightarrow> string list" where
  \<comment> \<open>the inner loop of \<open>get_files\<close>, on one triple of the walk\<close>
  "walk_files t =
     (case t of (path_dir, dirnames, filenames) \<Rightarrow>
        map (os_path_join path_dir) (filter (suffix ''.xml'') filenames))"

definition get_files :: "(string \<Rightarrow> dirent option) \<Rightarrow> string \<Rightarrow> string list" where
  \<comment> \<open>\<open>tree\<close> gives what is at a path, \<open>None\<close> when nothing is\<close>
  "get_files tree path_batch =
     (case tree path_batch of
        None \<Rightarrow> []
      | Some d \<Rightarrow> concat (map walk_files (os_walk path_batch d)))"

subsection \<open>pick\_random\<close>

text \<open>
  \<open>random.shuffle(x)\<close> is the standard library's loop
  \<^verbatim>\<open>for i in reversed(range(1, len(x))): j = randbelow(i + 1); x[i], x[j] = x[j], x[i]\<close>.
  The generator is a state \<open>g\<close> and \<open>randbelow n g\<close> gives the number drawn and the next
  state; the library draws a number below \<open>n\<close>. The list is changed in place, so the
  model returns the list as it is after the call.
\<close>

fun shuffle_loop :: "(nat \<Rightarrow> 'g \<Rightarrow> nat \<times> 'g) \<Rightarrow> nat \<Rightarrow> 'a list \<Rightarrow> 'g \<Rightarrow> 'a list \<times> 'g" where
  "shuffle_loop randbelow 0 x g = (x, g)"
| "shuffle_loop randbelow (Suc i) x g =
     (case randbelow (Suc i + 1) g of
        (j, g') \<Rightarrow> shuffle_loop randbelow i (x[Suc i := x ! j, j := x ! Suc i]) g')"

definition random_shuffle :: "(nat \<Rightarrow> 'g \<Rightarrow> nat \<times> 'g) \<Rightarrow> 'a list \<Rightarrow> 'g \<Rightarrow> 'a list \<times> 'g" where
  "random_shuffle randbelow x g = shuffle_loop randbelow (length x - 1) x g"

record 'g sampled =
  returned :: "string list"
  tei_files_after :: "string list"
  generator_after :: 'g

definition pick_random ::
  "(nat \<Rightarrow> 'g \<Rightarrow> nat \<times> 'g) \<Rightarrow> string list \<Rightarrow> int \<Rightarrow> 'g \<Rightarrow> 'g sampled" where
  \<comment> \<open>\<open>returned\<close> is the value returned, \<open>tei_files_after\<close> the caller's list object after
      the call, \<open>generator_after\<close> the state of the generator\<close>
  "pick_random randbelow tei_files DOCS_USED g =
     (let DOCS_USED' =
            (if DOCS_USED \<le> 0 \<or> DOCS_USED > int (length tei_files)
             then int (length tei_files) else DOCS_USED)
      in case random_shuffle randbelow tei_files g of
           (shuffled, g') \<Rightarrow>
             \<lparr>returned = take (nat DOCS_USED') shuffled,
              tei_files_after = shuffled,
              generator_after = g'\<rparr>)"

definition randbelow_in_range :: "(nat \<Rightarrow> 'g \<Rightarrow> nat \<times> 'g) \<Rightarrow> bool" where
  \<comment> \<open>what the library promises of \<open>randbelow\<close>: the number drawn for \<open>n > 0\<close> is below \<open>n\<close>\<close>
  "randbelow_in_range rb = (\<forall>n g. fst (rb (Suc n) g) \<le> n)"

definition digits_randbelow :: "nat \<Rightarrow> nat \<Rightarrow> nat \<times> nat" where
  \<comment> \<open>a generator for the examples: its state is a number, read digit by digit\<close>
  "digits_randbelow n g = (g mod n, g div n)"

subsection \<open>The script\<close>

definition BOW_LENGTH :: int where
  "BOW_LENGTH = 50000"

definition DOCS_USED :: int where
  "DOCS_USED = 3000"

definition OUTPUT_TXT :: string where
  "OUTPUT_TXT = ''../output/dbnl_bow-50k_3kdocs.txt''"

record 'g world =
  tree :: "string \<Rightarrow> dirent option"
  read_text :: "string \<Rightarrow> string option"
  can_open :: "string \<Rightarrow> bool"
  randbelow :: "nat \<Rightarrow> 'g \<Rightarrow> nat \<times> 'g"
  generator :: 'g
  lib :: textlib
  word_tokenize :: "string \<Rightarrow> string list"

definition main :: "'g world \<Rightarrow> string list \<Rightarrow> exn + string list" where
  \<comment> \<open>the block under \<open>__main__\<close>, from \<open>sys.argv\<close>; \<open>generator\<close> is the generator after
      \<open>random.seed(4)\<close>. The result is what is written to \<open>OUTPUT_TXT\<close>.\<close>
  "main W argv =
     (case argv of
        _ # path_batch # _ \<Rightarrow>
          (let tei_files = get_files (tree W) path_batch;
               tei_files = returned (pick_random (randbelow W) tei_files DOCS_USED (generator W))
           in case extract_tei (lib W) (read_text W) tei_files of
                Inl e \<Rightarrow> Inl e
              | Inr flat_text \<Rightarrow>
                  output_bow (can_open W) (create_bow (word_tokenize W) flat_text)
                    BOW_LENGTH OUTPUT_TXT)
      | _ \<Rightarrow> Inl IndexError)"

subsection \<open>Positions\<close>

fun first_index :: "'a list \<Rightarrow> 'a \<Rightarrow> nat" where
  \<comment> \<open>the index of the first occurrence of \<open>a\<close>, the length of the list when there is none\<close>
  "first_index [] a = 0"
| "first_index (x # xs) a = (if x = a then 0 else Suc (first_index xs a))"

subsection \<open>A word tokenizer for the examples\<close>

definition split_words :: "string \<Rightarrow> string list" where
  \<comment> \<open>the words of a cleaned sentence, which are separated by single spaces\<close>
  "split_words sen = filter (\<lambda>w. w \<noteq> []) (re_split '' '' sen)"

subsection \<open>A library, documents and worlds for the examples\<close>

text \<open>
  An ASCII stand-in for the text library, whose sentences end with a full stop followed by
  a space; three documents; a world whose root directory does not exist and one whose
  root directory cannot be listed.
\<close>

definition ascii_lower :: "char \<Rightarrow> char" where
  "ascii_lower c =
     (case map_of (zip ''ABCDEFGHIJKLMNOPQRSTUVWXYZ'' ''abcdefghijklmnopqrstuvwxyz'') c of
        Some l \<Rightarrow> l
      | None \<Rightarrow> c)"

definition ascii_lib :: textlib where
  "ascii_lib =
     \<lparr>str_lower = map ascii_lower,
      is_word_char = (\<lambda>c. c \<in> set ''abcdefghijklmnopqrstuvwxyzABCDEFGHIJKLMNOPQRSTUVWXYZ0123456789_''),
      is_space_char = (\<lambda>c. c \<in> set [CHR '' '', CHR 0x09, CHR 0x0A, CHR 0x0B, CHR 0x0C, CHR 0x0D]),
      sent_tokenize = (\<lambda>s. filter (\<lambda>t. t \<noteq> []) (re_split ''. '' s))\<rparr>"

definition example_docs :: "string \<Rightarrow> string option" where
  "example_docs = map_of
     [(''a.xml'', ''<TEI><head>Title</head><body><p>The Cat sat. The cat ran.</p></body></TEI>''),
      (''b.xml'', ''<TEI><head>No text</head></TEI>''),
      (''c.xml'', ''<TEI><body><p>One dog. </p><body><p>Two dogs. </p>'')]"

definition no_root :: "nat world" where
  "no_root =
     \<lparr>tree = (\<lambda>p. None), read_text = example_docs, can_open = (\<lambda>p. True),
      randbelow = digits_randbelow, generator = 4, lib = ascii_lib,
      word_tokenize = split_words\<rparr>"

definition locked_root :: "nat world" where
  "locked_root = no_root\<lparr>tree := (\<lambda>p. if p = ''/dbnl'' then Some Unlistable else None)\<rparr>"

section \<open>The counting stage\<close>

subsection \<open>The dictionary\<close>

lemma keys_od_set:
  "map fst (od_set d k v) = (if k \<in> set (map fst d) then map fst d else map fst d @ [k])"
  by (induction d) (auto simp: od_set_def)

lemma map_of_overwrite:
  "map_of (map (\<lambda>(k', v'). if k' = k then (k', v) else (k', v')) d) x =
     (if x = k \<and> k \<in> fst ` set d then Some v else map_of d x)"
proof (induction d arbitrary: x)
  case Nil
  show ?case by simp
next
  case (Cons p d)
  obtain a b where p: "p = (a, b)" by (cases p)
  show ?case
  proof (cases "a = k")
    case True
    then show ?thesis by (simp add: p Cons.IH)
  next
    case False
    then show ?thesis by (simp add: p Cons.IH)
  qed
qed

lemma map_of_od_set: "map_of (od_set d k v) = (map_of d)(k \<mapsto> v)"
proof (cases "k \<in> set (map fst d)")
  case True
  then show ?thesis by (auto simp: od_set_def map_of_overwrite fun_eq_iff)
next
  case False
  then have "map_of d k = None" by (simp add: map_of_eq_None_iff)
  with False show ?thesis
    by (auto simp: od_set_def map_add_def fun_eq_iff split: option.splits)
qed

lemma keys_count_word:
  "map fst (count_word d w) =
     (if length w > 2 \<and> w \<notin> set (map fst d) then map fst d @ [w] else map fst d)"
  by (auto simp: count_word_def keys_od_set split: option.splits)

lemma map_of_count_word:
  "map_of (count_word d w) =
     (if length w > 2
      then (map_of d)(w \<mapsto> (case map_of d w of None \<Rightarrow> 1 | Some c \<Rightarrow> c + 1))
      else map_of d)"
  by (auto simp: count_word_def map_of_od_set split: option.splits)

lemma distinct_keys_count_word:
  "distinct (map fst d) \<Longrightarrow> distinct (map fst (count_word d w))"
  by (simp add: keys_count_word)

lemma distinct_keys_foldl_count_word:
  "distinct (map fst d) \<Longrightarrow> distinct (map fst (foldl count_word d ws))"
  by (induction ws arbitrary: d) (simp_all add: distinct_keys_count_word)

lemma map_of_foldl_count_word:
  "map_of (foldl count_word d ws) w =
     (if length w > 2
      then (case map_of d w of
              None \<Rightarrow> if w \<in> set ws then Some (int (count_list ws w)) else None
            | Some c \<Rightarrow> Some (c + int (count_list ws w)))
      else map_of d w)"
proof (induction ws arbitrary: d)
  case Nil
  show ?case by (simp split: option.splits)
next
  case (Cons a ws)
  show ?case
    by (simp add: Cons.IH map_of_count_word count_list_0_iff split: option.splits)
qed

lemma foldl_nested_concat:
  "foldl (\<lambda>d s. foldl f d (g s)) d ss = foldl f d (concat (map g ss))"
  by (induction ss arbitrary: d) simp_all

lemma count_words_tokens:
  "count_words word_tok flat_text = foldl count_word [] (concat (map word_tok flat_text))"
  by (simp add: count_words_def foldl_nested_concat)

lemma count_list_concat_map:
  "count_list (concat (map g ss)) w = (\<Sum>s\<leftarrow>ss. count_list (g s) w)"
  by (induction ss) simp_all

lemma distinct_keys_count_words: "distinct (map fst (count_words word_tok flat_text))"
  by (simp add: count_words_tokens distinct_keys_foldl_count_word)

lemma map_of_count_words:
  "map_of (count_words word_tok flat_text) w =
     (if length w > 2 \<and> w \<in> set (concat (map word_tok flat_text))
      then Some (int (count_list (concat (map word_tok flat_text)) w)) else None)"
  by (simp add: count_words_tokens map_of_foldl_count_word)

lemma foldl_od_set_fresh:
  "distinct (map fst ps) \<Longrightarrow> set (map fst d) \<inter> set (map fst ps) = {} \<Longrightarrow>
   foldl (\<lambda>d (k, v). od_set d k v) d ps = d @ ps"
proof (induction ps arbitrary: d)
  case Nil
  show ?case by simp
next
  case (Cons p ps)
  obtain k v where p: "p = (k, v)" by (cases p)
  from Cons.prems have fresh: "k \<notin> set (map fst d)" by (auto simp: p)
  then have step: "od_set d k v = d @ [(k, v)]" by (simp add: od_set_def)
  from Cons.prems have "distinct (map fst ps)"
    and "set (map fst (d @ [(k, v)])) \<inter> set (map fst ps) = {}"
    by (auto simp: p)
  from Cons.IH [OF this] show ?case by (simp add: p step)
qed

lemma od_of_items_distinct: "distinct (map fst ps) \<Longrightarrow> od_of_items ps = ps"
  using foldl_od_set_fresh [of ps "[]"] by (simp add: od_of_items_def)

lemma mset_sorted_reverse: "mset (sorted_reverse key xs) = mset xs"
  by (simp add: sorted_reverse_def)

lemma set_sorted_reverse: "set (sorted_reverse key xs) = set xs"
  by (simp add: sorted_reverse_def)

lemma distinct_keys_sorted_reverse:
  "distinct (map fst xs) \<Longrightarrow> distinct (map fst (sorted_reverse key xs))"
proof -
  assume d: "distinct (map fst xs)"
  have "mset (map fst (sorted_reverse key xs)) = mset (map fst xs)"
    by (simp add: mset_sorted_reverse)
  then show ?thesis using d by (metis distinct_count_atmost_1 set_mset_mset)
qed

lemma create_bow_sorted:
  "create_bow word_tok flat_text = sorted_reverse snd (count_words word_tok flat_text)"
  by (simp add: create_bow_def od_of_items_distinct distinct_keys_sorted_reverse
      distinct_keys_count_words)

lemma distinct_keys_create_bow: "distinct (map fst (create_bow word_tok flat_text))"
  by (simp add: create_bow_sorted distinct_keys_sorted_reverse distinct_keys_count_words)

lemma set_create_bow:
  "set (create_bow word_tok flat_text) = set (count_words word_tok flat_text)"
  by (simp add: create_bow_sorted set_sorted_reverse)

lemma map_of_create_bow:
  "map_of (create_bow word_tok flat_text) = map_of (count_words word_tok flat_text)"
  by (simp add: map_of_inject_set distinct_keys_create_bow distinct_keys_count_words
      set_create_bow)

text \<open>
  Claim C1. For every sequence of cleaned sentences, the table returned by the counting
  stage has one entry for each key, and maps a word \<open>w\<close> of more than 2 characters that
  the tokenizer yields at least once to the number of its occurrences, summed over the
  sentences; it has no entry for any other word, so none for a word of 2 characters or
  fewer.
\<close>

theorem create_bow_counts:
  "distinct (map fst (create_bow word_tok flat_text)) \<and>
   map_of (create_bow word_tok flat_text) w =
     (if length w > 2 \<and> (\<Sum>sen\<leftarrow>flat_text. count_list (word_tok sen) w) > 0
      then Some (int (\<Sum>sen\<leftarrow>flat_text. count_list (word_tok sen) w))
      else None)"
  by (simp add: distinct_keys_create_bow map_of_create_bow map_of_count_words
      count_list_concat_map [symmetric] count_list_0_iff)

theorem create_bow_counts_witness:
  "map_of (create_bow split_words [''the cat sat on a mat'', ''the cat ran'']) ''cat'' = Some 2 \<and>
   map_of (create_bow split_words [''the cat sat on a mat'', ''the cat ran'']) ''on'' = None"
proof -
  have c1: "count_list (split_words ''the cat sat on a mat'') ''cat'' = 1"
    and c2: "count_list (split_words ''the cat ran'') ''cat'' = 1"
    by code_simp+
  show ?thesis
    using create_bow_counts [of split_words "[''the cat sat on a mat'', ''the cat ran'']" "''cat''"]
      create_bow_counts [of split_words "[''the cat sat on a mat'', ''the cat ran'']" "''on''"]
    by (simp add: c1 c2)
qed

subsection \<open>The order of the sentences\<close>

lemma count_list_concat_perm:
  assumes "mset ss' = mset ss"
  shows "count_list (concat (map g ss')) w = count_list (concat (map g ss)) w"
proof -
  have "(\<Sum>s\<leftarrow>ss'. count_list (g s) w) = sum_mset (image_mset (\<lambda>s. count_list (g s) w) (mset ss'))"
    by (metis mset_map sum_mset_sum_list)
  also have "\<dots> = sum_mset (image_mset (\<lambda>s. count_list (g s) w) (mset ss))"
    by (simp add: assms)
  also have "\<dots> = (\<Sum>s\<leftarrow>ss. count_list (g s) w)"
    by (metis mset_map sum_mset_sum_list)
  finally show ?thesis by (simp add: count_list_concat_map)
qed

text \<open>
  Claim C9. For every sequence of cleaned sentences and every permutation of it, the
  counting stage returns the same set of (word, count) pairs.
\<close>

theorem create_bow_permutation:
  assumes "mset flat_text' = mset flat_text"
  shows "set (create_bow word_tok flat_text') = set (create_bow word_tok flat_text)"
proof -
  have "map_of (count_words word_tok flat_text') w = map_of (count_words word_tok flat_text) w" for w
  proof -
    let ?ts' = "concat (map word_tok flat_text')" and ?ts = "concat (map word_tok flat_text)"
    have cnt: "count_list ?ts' w = count_list ?ts w"
      by (rule count_list_concat_perm [OF assms])
    then have mem: "w \<in> set ?ts' \<longleftrightarrow> w \<in> set ?ts"
      by (metis count_list_0_iff)
    show ?thesis
      unfolding map_of_count_words cnt mem ..
  qed
  then have "map_of (count_words word_tok flat_text') = map_of (count_words word_tok flat_text)"
    by (rule ext)
  then have "set (count_words word_tok flat_text') = set (count_words word_tok flat_text)"
    by (simp add: map_of_inject_set distinct_keys_count_words)
  then show ?thesis by (simp add: set_create_bow)
qed

theorem create_bow_permutation_witness:
  "set (create_bow split_words [''the cat sat'', ''a dog ran'', ''the cat ran'']) =
   set (create_bow split_words [''the cat ran'', ''the cat sat'', ''a dog ran''])"
proof -
  have "mset [''the cat sat'', ''a dog ran'', ''the cat ran''] =
        mset [''the cat ran'', ''the cat sat'', ''a dog ran'']"
    by (simp add: add_mset_commute)
  then show ?thesis by (rule create_bow_permutation)
qed

subsection \<open>Ties\<close>

lemma first_index_append:
  "first_index (xs @ ys) a =
     (if a \<in> set xs then first_index xs a else length xs + first_index ys a)"
  by (induction xs) auto

lemma first_index_less_iff: "first_index xs a < length xs \<longleftrightarrow> a \<in> set xs"
  by (induction xs) auto

lemma first_index_le: "first_index xs a \<le> length xs"
  by (induction xs) auto

lemma first_index_filter:
  "P a \<Longrightarrow> P b \<Longrightarrow>
   first_index (filter P xs) a < first_index (filter P xs) b \<longleftrightarrow>
   first_index xs a < first_index xs b"
  by (induction xs) auto

lemma first_index_map_inj:
  "inj_on f (set xs) \<Longrightarrow> a \<in> set xs \<Longrightarrow> first_index (map f xs) (f a) = first_index xs a"
  by (induction xs) (auto simp: inj_on_def)

lemma first_index_keys:
  "distinct (map fst d) \<Longrightarrow> (k, v) \<in> set d \<Longrightarrow> first_index (map fst d) k = first_index d (k, v)"
  using first_index_map_inj [of fst d "(k, v)"] by (simp add: distinct_map)

lemma sorted_reverse_stable:
  "filter (\<lambda>y. key y = k) (sorted_reverse key xs) = filter (\<lambda>y. key y = k) xs"
  by (simp add: sorted_reverse_def rev_filter [symmetric] sort_key_stable)

lemma set_keys_foldl_count_word:
  "set (map fst (foldl count_word [] ws)) = {w \<in> set ws. length w > 2}"
proof (induction ws rule: rev_induct)
  case Nil
  show ?case by simp
next
  case (snoc w ws)
  then show ?case by (auto simp: keys_count_word)
qed

lemma keys_order_foldl_count_word:
  "a \<in> set (map fst (foldl count_word [] ws)) \<Longrightarrow>
   b \<in> set (map fst (foldl count_word [] ws)) \<Longrightarrow>
   first_index (map fst (foldl count_word [] ws)) a < first_index (map fst (foldl count_word [] ws)) b
   \<longleftrightarrow> first_index ws a < first_index ws b"
proof (induction ws rule: rev_induct)
  case Nil
  then show ?case by simp
next
  case (snoc w ws)
  let ?K = "map fst (foldl count_word [] ws)"
  have setK: "set ?K = {w \<in> set ws. length w > 2}" by (rule set_keys_foldl_count_word)
  show ?case
  proof (cases "length w > 2 \<and> w \<notin> set ?K")
    case False
    then have same: "map fst (count_word (foldl count_word [] ws) w) = ?K"
      by (simp add: keys_count_word)
    from snoc.prems have ab: "a \<in> set ?K" "b \<in> set ?K" by (simp_all add: same)
    then have "a \<in> set ws" "b \<in> set ws" using setK by auto
    then show ?thesis using snoc.IH [OF ab] by (simp add: same first_index_append)
  next
    case True
    then have new: "map fst (count_word (foldl count_word [] ws) w) = ?K @ [w]"
      by (simp add: keys_count_word)
    from True setK have wws: "w \<notin> set ws" by auto
    have len: "first_index ?K x < length ?K" if "x \<in> set ?K" for x
      using that by (simp only: first_index_less_iff)
    have len': "first_index ws x < length ws" if "x \<in> set ws" for x
      using that by (simp only: first_index_less_iff)
    from snoc.prems have ab: "a \<in> set ?K \<or> a = w" "b \<in> set ?K \<or> b = w"
      by (auto simp: new)
    consider "a \<in> set ?K" "b \<in> set ?K" | "a \<in> set ?K" "b = w" | "a = w" "b \<in> set ?K" | "a = w" "b = w"
      using ab by blast
    then show ?thesis
    proof cases
      case 1
      then have "a \<in> set ws" "b \<in> set ws" using setK by auto
      then show ?thesis using snoc.IH [OF 1] 1 by (simp add: new first_index_append)
    next
      case 2
      then have "a \<in> set ws" using setK by auto
      then show ?thesis using 2 True wws len [of a] len' [of a]
        by (simp add: new first_index_append)
    next
      case 3
      then have "b \<in> set ws" using setK by auto
      then show ?thesis using 3 True wws len [of b] len' [of b]
        by (simp add: new first_index_append)
    next
      case 4
      then show ?thesis by simp
    qed
  qed
qed

text \<open>
  Claim C10. Two words of the sorted table that have the same count stand in the order of
  their first occurrences in the stream of tokens: the first of the two in the table is
  the one that occurs first in the sentences.
\<close>

theorem create_bow_ties:
  assumes "(w1, c) \<in> set (create_bow word_tok flat_text)"
    and "(w2, c) \<in> set (create_bow word_tok flat_text)"
  shows "first_index (map fst (create_bow word_tok flat_text)) w1
           < first_index (map fst (create_bow word_tok flat_text)) w2
         \<longleftrightarrow>
         first_index (concat (map word_tok flat_text)) w1
           < first_index (concat (map word_tok flat_text)) w2"
proof -
  let ?out = "create_bow word_tok flat_text"
  let ?cw = "count_words word_tok flat_text"
  let ?P = "\<lambda>p :: string \<times> int. snd p = c"
  from assms have in_cw: "(w1, c) \<in> set ?cw" "(w2, c) \<in> set ?cw"
    by (simp_all add: set_create_bow)
  have "first_index (map fst ?out) w1 < first_index (map fst ?out) w2
        \<longleftrightarrow> first_index ?out (w1, c) < first_index ?out (w2, c)"
    using assms by (simp add: first_index_keys distinct_keys_create_bow)
  also have "\<dots> \<longleftrightarrow> first_index (filter ?P ?out) (w1, c) < first_index (filter ?P ?out) (w2, c)"
    by (simp add: first_index_filter)
  also have "filter ?P ?out = filter ?P ?cw"
    by (simp add: create_bow_sorted sorted_reverse_stable)
  also have "first_index (filter ?P ?cw) (w1, c) < first_index (filter ?P ?cw) (w2, c)
        \<longleftrightarrow> first_index ?cw (w1, c) < first_index ?cw (w2, c)"
    by (simp add: first_index_filter)
  also have "\<dots> \<longleftrightarrow> first_index (map fst ?cw) w1 < first_index (map fst ?cw) w2"
    using in_cw by (simp add: first_index_keys distinct_keys_count_words)
  also have "\<dots> \<longleftrightarrow> first_index (concat (map word_tok flat_text)) w1
           < first_index (concat (map word_tok flat_text)) w2"
  proof -
    from in_cw have "w1 \<in> set (map fst ?cw)" "w2 \<in> set (map fst ?cw)" by force+
    then show ?thesis
      unfolding count_words_tokens by (rule keys_order_foldl_count_word)
  qed
  finally show ?thesis .
qed

theorem create_bow_ties_witness:
  "(''cat'', 2) \<in> set (create_bow split_words [''the cat sat'', ''a dog ran fast'', ''the cat ran'']) \<and>
   (''ran'', 2) \<in> set (create_bow split_words [''the cat sat'', ''a dog ran fast'', ''the cat ran'']) \<and>
   first_index (map fst (create_bow split_words [''the cat sat'', ''a dog ran fast'', ''the cat ran''])) ''cat''
     < first_index (map fst (create_bow split_words [''the cat sat'', ''a dog ran fast'', ''the cat ran''])) ''ran'' \<and>
   first_index (concat (map split_words [''the cat sat'', ''a dog ran fast'', ''the cat ran''])) ''cat''
     < first_index (concat (map split_words [''the cat sat'', ''a dog ran fast'', ''the cat ran''])) ''ran''"
proof -
  let ?ss = "[''the cat sat'', ''a dog ran fast'', ''the cat ran'']"
  have bow: "create_bow split_words ?ss =
     [(''the'', 2), (''cat'', 2), (''ran'', 2), (''sat'', 1), (''dog'', 1), (''fast'', 1)]"
    by code_simp
  have m1: "(''cat'', 2) \<in> set (create_bow split_words ?ss)"
    and m2: "(''ran'', 2) \<in> set (create_bow split_words ?ss)"
    by (simp_all add: bow)
  have lt: "first_index (map fst (create_bow split_words ?ss)) ''cat''
     < first_index (map fst (create_bow split_words ?ss)) ''ran''"
    by (simp add: bow)
  show ?thesis
    using m1 m2 lt create_bow_ties [OF m1 m2] by simp
qed

section \<open>The reporter\<close>

lemma bow_length_le: "bow_length d N \<le> length d"
  by (auto simp: bow_length_def)

lemma bow_length_eq:
  "int (bow_length d N) = (if N > 0 then min (int (length d)) N else int (length d))"
  by (auto simp: bow_length_def)

lemma output_rows_take: "output_rows d N = take (bow_length d N) d"
  by (rule nth_equalityI) (use bow_length_le [of d N] in \<open>simp_all add: output_rows_def\<close>)

lemma sorted_reverse_descending:
  "sorted_wrt (\<lambda>a b. key a \<ge> key b) (sorted_reverse key xs)"
proof -
  have "sorted (map key (sort_key key (rev xs)))" by simp
  then have "sorted_wrt (\<lambda>a b. key a \<le> key b) (sort_key key (rev xs))"
    by (simp add: sorted_wrt_map)
  then show ?thesis by (simp add: sorted_reverse_def sorted_wrt_rev)
qed

text \<open>
  Claim C5. The (word, count) pairs written to the output, for the table the counting
  stage returns and any requested length, are non-increasing in count from first to last.
  \<open>output_bow\<close> writes the line of each of these pairs, in this order, when it can open
  the file.
\<close>

theorem output_descending:
  "sorted_wrt (\<lambda>a b. snd a \<ge> snd b) (output_rows (create_bow word_tok flat_text) N) \<and>
   output_bow openable (create_bow word_tok flat_text) N path \<in>
     {Inr (map output_line (output_rows (create_bow word_tok flat_text) N)), Inl (OSError path)}"
  by (simp add: output_rows_take create_bow_sorted sorted_reverse_descending output_bow_def)

theorem output_descending_witness:
  "sorted_wrt (\<lambda>a b. snd a \<ge> snd b)
     (output_rows (create_bow split_words [''the cat sat'', ''a dog ran fast'', ''the cat ran'']) 4)"
  using output_descending [of split_words "[''the cat sat'', ''a dog ran fast'', ''the cat ran'']" 4]
  by simp

lemma digit_not_newline: "k < 10 \<Longrightarrow> ''0123456789'' ! k \<noteq> CHR 0x0A"
proof -
  assume "k < 10"
  then have "k \<in> {0, 1, 2, 3, 4, 5, 6, 7, 8, 9}" by auto
  then show ?thesis by auto
qed

lemma str_nat_no_newline: "CHR 0x0A \<notin> set (str_nat n)"
proof (induction n rule: str_nat.induct)
  case (1 n)
  show ?case
  proof (cases "n < 10")
    case True
    then show ?thesis using digit_not_newline [of n] by (subst str_nat.simps) auto
  next
    case False
    then show ?thesis using 1 digit_not_newline [of "n mod 10"]
      by (subst str_nat.simps) auto
  qed
qed

lemma str_int_no_newline: "CHR 0x0A \<notin> set (str_int i)"
  by (simp add: str_int_def str_nat_no_newline)

lemma count_newline_output_line:
  "CHR 0x0A \<notin> set (fst row) \<Longrightarrow> count_list (output_line row) (CHR 0x0A) = 1"
  using str_int_no_newline [of "snd row"]
  by (simp add: output_line_def count_list_0_iff)

lemma count_newline_lines:
  "\<forall>row \<in> set rows. CHR 0x0A \<notin> set (fst row) \<Longrightarrow>
   count_list (concat (map output_line rows)) (CHR 0x0A) = length rows"
  by (induction rows) (simp_all add: count_newline_output_line)

text \<open>
  Claim C4. For a table of \<open>U\<close> words and a requested length \<open>N\<close>, the reporter (when
  it can open the output file) makes \<open>min U N\<close> writes if \<open>N > 0\<close> and \<open>U\<close> writes
  otherwise; each write is one line of the file when no word holds a newline.
\<close>

theorem output_bow_length:
  assumes "openable path"
  shows "\<exists>written. output_bow openable dict_sorted N path = Inr written \<and>
           int (length written) =
             (if N > 0 then min (int (length dict_sorted)) N else int (length dict_sorted)) \<and>
           ((\<forall>k \<in> set (map fst dict_sorted). CHR 0x0A \<notin> set k) \<longrightarrow>
              count_list (concat written) (CHR 0x0A) = length written)"
proof -
  let ?rows = "output_rows dict_sorted N"
  have "set ?rows \<subseteq> set dict_sorted"
    by (simp add: output_rows_take set_take_subset)
  then have "count_list (concat (map output_line ?rows)) (CHR 0x0A) = length ?rows"
    if "\<forall>k \<in> set (map fst dict_sorted). CHR 0x0A \<notin> set k"
    using that by (intro count_newline_lines) auto
  moreover have "int (length ?rows) =
      (if N > 0 then min (int (length dict_sorted)) N else int (length dict_sorted))"
    using bow_length_eq [of dict_sorted N] bow_length_le [of dict_sorted N]
    by (simp add: output_rows_take)
  ultimately show ?thesis using assms by (simp add: output_bow_def)
qed

theorem output_bow_length_witness:
  "\<exists>written. output_bow (\<lambda>p. True) [(''the'', 2), (''cat'', 2), (''sat'', 1)] 2 ''bow.txt'' = Inr written \<and>
     int (length written) = 2 \<and> count_list (concat written) (CHR 0x0A) = length written"
  using output_bow_length [of "\<lambda>p. True" "''bow.txt''" "[(''the'', 2), (''cat'', 2), (''sat'', 1)]" 2]
  by simp

section \<open>The sampler\<close>

lemma digits_randbelow_in_range: "randbelow_in_range digits_randbelow"
  by (simp add: randbelow_in_range_def digits_randbelow_def less_Suc_eq_le [symmetric])

lemma mset_shuffle_loop:
  "randbelow_in_range rb \<Longrightarrow> i < length x \<Longrightarrow>
   mset (fst (shuffle_loop rb i x g)) = mset x"
proof (induction i arbitrary: x g)
  case 0
  show ?case by simp
next
  case (Suc i)
  obtain j g' where rb: "rb (Suc (Suc i)) g = (j, g')" by (cases "rb (Suc (Suc i)) g")
  from Suc.prems(1) have "fst (rb (Suc (Suc i)) g) \<le> Suc i"
    unfolding randbelow_in_range_def by blast
  with rb Suc.prems(2) have j: "j < length x" by simp
  let ?x' = "x[Suc i := x ! j, j := x ! Suc i]"
  have swap: "mset ?x' = mset x"
    using Suc.prems(2) j by (simp add: mset_swap)
  have "i < length ?x'" using Suc.prems(2) by simp
  from Suc.IH [OF Suc.prems(1) this, of g'] show ?case
    by (simp add: rb swap)
qed

lemma mset_random_shuffle:
  "randbelow_in_range rb \<Longrightarrow> mset (fst (random_shuffle rb x g)) = mset x"
proof (cases x)
  case Nil
  then show ?thesis by (simp add: random_shuffle_def)
next
  case (Cons a as)
  assume "randbelow_in_range rb"
  then show ?thesis
    unfolding random_shuffle_def by (rule mset_shuffle_loop) (simp add: Cons)
qed

lemma pick_random_parts:
  "tei_files_after (pick_random rb fs K g) = fst (random_shuffle rb fs g) \<and>
   generator_after (pick_random rb fs K g) = snd (random_shuffle rb fs g) \<and>
   returned (pick_random rb fs K g) =
     take (if K \<le> 0 \<or> K > int (length fs) then length fs else nat K)
       (fst (random_shuffle rb fs g))"
  by (cases "random_shuffle rb fs g") (simp add: pick_random_def Let_def)

text \<open>
  Claim C3. For a list of \<open>M\<close> files and a requested sample size \<open>K\<close>, the sampler
  returns \<open>min M K\<close> files if \<open>K > 0\<close> and \<open>M\<close> files otherwise; the files returned are
  among those of the list, and are distinct when those of the list are.
\<close>

theorem pick_random_bound:
  assumes "randbelow_in_range rb"
  shows "int (length (returned (pick_random rb fs K g))) =
           (if K > 0 then min (int (length fs)) K else int (length fs)) \<and>
         set (returned (pick_random rb fs K g)) \<subseteq> set fs \<and>
         (distinct fs \<longrightarrow> distinct (returned (pick_random rb fs K g)))"
proof -
  let ?sh = "fst (random_shuffle rb fs g)"
  have m: "mset ?sh = mset fs" using assms by (rule mset_random_shuffle)
  then have len: "length ?sh = length fs" by (metis size_mset)
  from m have st: "set ?sh = set fs" by (metis set_mset_mset)
  from m have ds: "distinct ?sh \<longleftrightarrow> distinct fs" by (metis mset_eq_imp_distinct_iff)
  have "set (returned (pick_random rb fs K g)) \<subseteq> set ?sh"
    by (simp add: pick_random_parts set_take_subset)
  moreover have "distinct fs \<longrightarrow> distinct (returned (pick_random rb fs K g))"
    by (simp add: pick_random_parts ds)
  moreover have "int (length (returned (pick_random rb fs K g))) =
           (if K > 0 then min (int (length fs)) K else int (length fs))"
    by (auto simp: pick_random_parts len)
  ultimately show ?thesis using st by simp
qed

theorem pick_random_bound_witness:
  "int (length (returned (pick_random digits_randbelow [''a.xml'', ''b.xml'', ''c.xml'', ''d.xml''] 2 (7::nat)))) = 2 \<and>
   set (returned (pick_random digits_randbelow [''a.xml'', ''b.xml'', ''c.xml'', ''d.xml''] 2 (7::nat)))
     \<subseteq> set [''a.xml'', ''b.xml'', ''c.xml'', ''d.xml''] \<and>
   distinct (returned (pick_random digits_randbelow [''a.xml'', ''b.xml'', ''c.xml'', ''d.xml''] 2 (7::nat)))"
  using pick_random_bound [OF digits_randbelow_in_range,
      of "[''a.xml'', ''b.xml'', ''c.xml'', ''d.xml'']" 2 7]
  by simp

text \<open>
  Claim C8 says that the list passed to the sampler is left as it was. It is not:
  \<open>random.shuffle\<close> permutes the list in place, and the sampler returns a slice of it.
\<close>

theorem pick_random_changes_list:
  "tei_files_after (pick_random digits_randbelow [''a.xml'', ''b.xml'', ''c.xml'', ''d.xml''] 2 (7::nat))
     = [''c.xml'', ''a.xml'', ''b.xml'', ''d.xml''] \<and>
   tei_files_after (pick_random digits_randbelow [''a.xml'', ''b.xml'', ''c.xml'', ''d.xml''] 2 (7::nat))
     \<noteq> [''a.xml'', ''b.xml'', ''c.xml'', ''d.xml'']"
proof -
  have "pick_random digits_randbelow [''a.xml'', ''b.xml'', ''c.xml'', ''d.xml''] 2 (7::nat) =
     \<lparr>returned = [''c.xml'', ''a.xml''],
      tei_files_after = [''c.xml'', ''a.xml'', ''b.xml'', ''d.xml''],
      generator_after = 0\<rparr>"
    by code_simp
  then show ?thesis by simp
qed

text \<open>
  Claim C8, amended. The sampler shuffles the list it is passed in place: after the call
  the list holds the same elements as before, in the order the shuffle gave them, and the
  value returned is a prefix of it. The list after the call and the next state of the
  generator are those of \<open>random.shuffle\<close> on the list and the generator before the
  call, whatever \<open>K\<close> is; so they, and the value returned, are determined by the list,
  \<open>K\<close> and the generator's state, and nothing else is changed.
\<close>

theorem pick_random_in_place:
  assumes "randbelow_in_range rb"
  shows "mset (tei_files_after (pick_random rb fs K g)) = mset fs \<and>
         (tei_files_after (pick_random rb fs K g), generator_after (pick_random rb fs K g)) =
           random_shuffle rb fs g \<and>
         returned (pick_random rb fs K g) =
           take (if K \<le> 0 \<or> K > int (length fs) then length fs else nat K)
             (tei_files_after (pick_random rb fs K g))"
  using mset_random_shuffle [OF assms, of fs g] by (simp add: pick_random_parts)

theorem pick_random_in_place_witness:
  "mset (tei_files_after (pick_random digits_randbelow [''a.xml'', ''b.xml'', ''c.xml''] 5 (3::nat)))
     = mset [''a.xml'', ''b.xml'', ''c.xml''] \<and>
   returned (pick_random digits_randbelow [''a.xml'', ''b.xml'', ''c.xml''] 5 (3::nat))
     = take 3 (tei_files_after (pick_random digits_randbelow [''a.xml'', ''b.xml'', ''c.xml''] 5 (3::nat)))"
  using pick_random_in_place [OF digits_randbelow_in_range, of "[''a.xml'', ''b.xml'', ''c.xml'']" 5 3]
  by (simp add: numeral_3_eq_3)

section \<open>The text extractor\<close>

lemma re_split_from_no_match:
  "\<not> sublist pat s \<Longrightarrow> re_split_from pat acc s = [rev acc @ s]"
proof (induction s arbitrary: acc)
  case Nil
  show ?case by simp
next
  case (Cons c cs)
  from Cons.prems have np: "\<not> prefix pat (c # cs)"
    using prefix_imp_sublist by blast
  from Cons.prems have "\<not> sublist pat cs"
    by (meson sublist_Cons_right)
  from Cons.IH [OF this, of "c # acc"] np show ?case by simp
qed

lemma prefix_of_longer_part:
  "prefix pat (xs @ ys) \<Longrightarrow> length pat \<le> length xs \<Longrightarrow> prefix pat xs"
  by (metis prefix_length_prefix prefixI)

lemma re_split_from_first_match:
  assumes "pat \<noteq> []" and "\<not> sublist pat (pre @ butlast pat)"
  shows "re_split_from pat acc (pre @ pat @ post) = (rev acc @ pre) # re_split_from pat [] post"
  using assms(2)
proof (induction pre arbitrary: acc)
  case Nil
  obtain c cs where pat: "pat = c # cs" using assms(1) by (cases pat) auto
  have "re_split_from pat acc (pat @ post) = rev acc # re_split_from pat [] (drop (length pat) (pat @ post))"
    by (simp add: pat)
  then show ?case by simp
next
  case (Cons c pre)
  have np: "\<not> prefix pat (c # pre @ pat @ post)"
  proof
    assume p: "prefix pat (c # pre @ pat @ post)"
    have split: "c # pre @ pat @ post = ((c # pre) @ butlast pat) @ ([last pat] @ post)"
      using assms(1) by simp
    have "length pat \<le> length ((c # pre) @ butlast pat)" by simp
    with p have "prefix pat ((c # pre) @ butlast pat)"
      unfolding split by (rule prefix_of_longer_part)
    then have "sublist pat ((c # pre) @ butlast pat)" by (rule prefix_imp_sublist)
    with Cons.prems show False by simp
  qed
  from Cons.prems have "\<not> sublist pat (pre @ butlast pat)"
    by (metis append_Cons sublist_Cons_right)
  from Cons.IH [OF this, of "c # acc"] np show ?case by simp
qed

lemma body_marker_nonempty: "body_marker \<noteq> []"
  by (simp add: body_marker_def)

lemma tei_body_1_no_marker:
  "\<not> sublist body_marker tei \<Longrightarrow> tei_body_1 tei = Inl IndexError"
  by (simp add: tei_body_1_def re_split_def re_split_from_no_match)

lemma tei_body_1_one_marker:
  assumes "\<not> sublist body_marker (pre @ butlast body_marker)"
    and "\<not> sublist body_marker post"
  shows "tei_body_1 (pre @ body_marker @ post) = Inr post"
  by (simp add: tei_body_1_def re_split_def
      re_split_from_first_match [OF body_marker_nonempty assms(1)]
      re_split_from_no_match [OF assms(2)])

lemma re_split_from_nonempty: "re_split_from pat acc s \<noteq> []"
  by (induction pat acc s rule: re_split_from.induct) auto

lemma tei_body_1_more_markers:
  assumes "\<not> sublist body_marker (pre @ butlast body_marker)"
    and "\<not> sublist body_marker (mid @ butlast body_marker)"
  shows "tei_body_1 (pre @ body_marker @ mid @ body_marker @ rest) = Inr mid"
proof -
  obtain p ps where "re_split_from body_marker [] rest = p # ps"
    using re_split_from_nonempty [of body_marker "[]" rest]
    by (cases "re_split_from body_marker [] rest") auto
  then show ?thesis
    by (simp add: tei_body_1_def re_split_def
      re_split_from_first_match [OF body_marker_nonempty assms(1)]
      re_split_from_first_match [OF body_marker_nonempty assms(2)])
qed

lemma extract_loop_append:
  "extract_loop L rd flat (fs @ gs) =
     (case extract_loop L rd flat fs of Inl e \<Rightarrow> Inl e | Inr flat' \<Rightarrow> extract_loop L rd flat' gs)"
  by (induction fs arbitrary: flat) (auto split: option.splits sum.splits)

lemma extract_loop_fails:
  "f \<in> set fs \<Longrightarrow> rd f = Some tei \<Longrightarrow> doc_sentences L tei = Inl e \<Longrightarrow>
   isl (extract_loop L rd flat fs)"
  by (induction fs arbitrary: flat) (auto split: option.splits sum.splits)


text \<open>
  Claim C7. A document whose content does not hold the marker \<open><body>\<close> makes the
  extraction raise \<open>IndexError\<close>: the extraction of a list that holds its path returns no
  sentences at all, and it raises that error when the files before it were extracted.
\<close>

theorem extract_tei_no_marker:
  assumes "rd f = Some tei" and "\<not> sublist body_marker tei"
  shows "doc_sentences L tei = Inl IndexError \<and>
         extract_tei L rd [f] = Inl IndexError \<and>
         (f \<in> set fs \<longrightarrow> isl (extract_tei L rd fs)) \<and>
         (\<forall>before after flat. extract_tei L rd before = Inr flat \<longrightarrow>
            extract_tei L rd (before @ f # after) = Inl IndexError)"
proof -
  have doc: "doc_sentences L tei = Inl IndexError"
    by (simp add: doc_sentences_def tei_body_1_no_marker [OF assms(2)])
  have one: "extract_loop L rd flat (f # after) = Inl IndexError" for flat after
    by (simp add: assms(1) doc)
  have "isl (extract_tei L rd fs)" if "f \<in> set fs"
    unfolding extract_tei_def using that assms(1) doc by (rule extract_loop_fails)
  moreover have "extract_tei L rd (before @ f # after) = Inl IndexError"
    if "extract_tei L rd before = Inr flat" for before after flat
    using that by (simp add: extract_tei_def extract_loop_append assms(1) doc)
  ultimately show ?thesis using doc one [of "[]" "[]"] by (simp add: extract_tei_def del: extract_loop.simps)
qed

theorem extract_tei_no_marker_witness:
  "extract_tei ascii_lib example_docs [''a.xml'', ''b.xml''] = Inl IndexError"
proof -
  have rd: "example_docs ''b.xml'' = Some ''<TEI><head>No text</head></TEI>''"
    by (simp add: example_docs_def)
  have nm: "\<not> sublist body_marker ''<TEI><head>No text</head></TEI>''"
    by code_simp
  have a: "extract_tei ascii_lib example_docs [''a.xml''] = Inr [''the cat sat'', ''the cat ran '']"
    by code_simp
  have "\<forall>before after flat. extract_tei ascii_lib example_docs before = Inr flat \<longrightarrow>
            extract_tei ascii_lib example_docs (before @ ''b.xml'' # after) = Inl IndexError"
    using extract_tei_no_marker
        [where rd = example_docs and f = "''b.xml''" and L = ascii_lib and fs = "[]", OF rd nm]
    by blast
  from this [rule_format, OF a, of "[]"] show ?thesis by simp
qed

text \<open>
  Claim C2 says that everything after the first \<open><body>\<close> is processed, also when the
  marker occurs again. It is not: \<open>re.split\<close> splits at every occurrence and the
  extractor takes the piece of index 1, so a document with a second marker gives the
  sentences of the text between the first two only.
\<close>

theorem extract_tei_second_marker:
  "extract_tei ascii_lib example_docs [''c.xml''] = Inr [''one dog''] \<and>
   body_sentences ascii_lib ''<p>One dog. </p><body><p>Two dogs. </p>'' = [''one dog'', ''two dogs''] \<and>
   extract_tei ascii_lib example_docs [''c.xml'']
     \<noteq> Inr (body_sentences ascii_lib ''<p>One dog. </p><body><p>Two dogs. </p>'')"
proof -
  have 1: "extract_tei ascii_lib example_docs [''c.xml''] = Inr [''one dog'']"
    by code_simp
  have 2: "body_sentences ascii_lib ''<p>One dog. </p><body><p>Two dogs. </p>'' = [''one dog'', ''two dogs'']"
    by code_simp
  show ?thesis by (simp add: 1 2)
qed

text \<open>
  Claim C2, amended. For a document that holds the marker, the extractor processes the
  text after the first occurrence of the marker up to the next occurrence, which is
  everything after the first occurrence when there is no other; the sentences of that
  text, and nothing else of the document, are appended to the output sequence.
\<close>

theorem extract_tei_body:
  assumes "rd f = Some (pre @ body_marker @ post)"
    and "\<not> sublist body_marker (pre @ butlast body_marker)"
  shows "(\<not> sublist body_marker post \<longrightarrow>
            extract_loop L rd flat (f # fs) = extract_loop L rd (flat @ body_sentences L post) fs) \<and>
         (\<forall>mid rest. post = mid @ body_marker @ rest \<and>
              \<not> sublist body_marker (mid @ butlast body_marker) \<longrightarrow>
            extract_loop L rd flat (f # fs) = extract_loop L rd (flat @ body_sentences L mid) fs)"
proof (intro conjI impI allI)
  assume "\<not> sublist body_marker post"
  with assms(2) have "tei_body_1 (pre @ body_marker @ post) = Inr post"
    by (rule tei_body_1_one_marker)
  then show "extract_loop L rd flat (f # fs) = extract_loop L rd (flat @ body_sentences L post) fs"
    by (simp add: assms(1) doc_sentences_def)
next
  fix mid rest
  assume "post = mid @ body_marker @ rest \<and> \<not> sublist body_marker (mid @ butlast body_marker)"
  then have post: "post = mid @ body_marker @ rest"
    and "\<not> sublist body_marker (mid @ butlast body_marker)" by simp_all
  with assms(2) have "tei_body_1 (pre @ body_marker @ mid @ body_marker @ rest) = Inr mid"
    by (intro tei_body_1_more_markers)
  then show "extract_loop L rd flat (f # fs) = extract_loop L rd (flat @ body_sentences L mid) fs"
    by (simp add: assms(1) post doc_sentences_def)
qed

theorem extract_tei_body_witness:
  "extract_tei ascii_lib example_docs [''c.xml''] = Inr (body_sentences ascii_lib ''<p>One dog. </p>'') \<and>
   extract_tei ascii_lib example_docs [''a.xml''] =
     Inr (body_sentences ascii_lib ''<p>The Cat sat. The cat ran.</p></body></TEI>'')"
proof -
  have c: "example_docs ''c.xml'' =
      Some (''<TEI>'' @ body_marker @ (''<p>One dog. </p>'' @ body_marker @ ''<p>Two dogs. </p>''))"
    by (simp add: example_docs_def body_marker_def)
  have a: "example_docs ''a.xml'' =
      Some (''<TEI><head>Title</head>'' @ body_marker @ ''<p>The Cat sat. The cat ran.</p></body></TEI>'')"
    by (simp add: example_docs_def body_marker_def)
  have c1: "\<not> sublist body_marker (''<TEI>'' @ butlast body_marker)"
    and c2: "\<not> sublist body_marker (''<p>One dog. </p>'' @ butlast body_marker)"
    and a1: "\<not> sublist body_marker (''<TEI><head>Title</head>'' @ butlast body_marker)"
    and a2: "\<not> sublist body_marker ''<p>The Cat sat. The cat ran.</p></body></TEI>''"
    by code_simp+
  have "extract_loop ascii_lib example_docs [] [''c.xml''] =
      extract_loop ascii_lib example_docs ([] @ body_sentences ascii_lib ''<p>One dog. </p>'') []"
    using extract_tei_body
        [where rd = example_docs and f = "''c.xml''" and L = ascii_lib and flat = "[]" and fs = "[]",
          OF c c1] c2
    by blast
  moreover have "extract_loop ascii_lib example_docs [] [''a.xml''] =
      extract_loop ascii_lib example_docs
        ([] @ body_sentences ascii_lib ''<p>The Cat sat. The cat ran.</p></body></TEI>'') []"
    using extract_tei_body
        [where rd = example_docs and f = "''a.xml''" and L = ascii_lib and flat = "[]" and fs = "[]",
          OF a a1] a2
    by blast
  ultimately show ?thesis by (simp add: extract_tei_def del: extract_loop.simps(2))
qed

section \<open>File discovery\<close>

lemma pick_random_Nil: "returned (pick_random rb [] K g) = []"
  by (simp add: pick_random_parts random_shuffle_def)

lemma create_bow_Nil: "create_bow word_tok [] = []"
  by (simp add: create_bow_def count_words_def sorted_reverse_def od_of_items_def)

lemma output_bow_Nil: "openable path \<Longrightarrow> output_bow openable [] N path = Inr []"
  by (auto simp: output_bow_def output_rows_def bow_length_def)

text \<open>
  Claim C6 says that a root path that does not exist makes file discovery fail. It does
  not: \<open>os.walk\<close> passes over the error, the list of files is empty, and the run goes
  on to write an empty output file.
\<close>

theorem get_files_missing_root_run:
  "get_files (tree no_root) ''/no/such/dir'' = [] \<and>
   main no_root [''bow_dbnl.py'', ''/no/such/dir''] = Inr []"
  by code_simp

text \<open>
  Claim C6, amended. If the root path does not exist or cannot be listed, file discovery
  returns the empty list without an error, and the run goes on with no document: when the
  output file can be opened, it ends normally and nothing is written to the file.
\<close>

theorem get_files_missing_root:
  assumes "tree W path_batch = None \<or> tree W path_batch = Some Unlistable"
  shows "get_files (tree W) path_batch = [] \<and>
         (can_open W OUTPUT_TXT \<longrightarrow> main W (prog # path_batch # args) = Inr [])"
proof -
  have g: "get_files (tree W) path_batch = []"
    using assms by (auto simp: get_files_def)
  then show ?thesis
    by (simp add: main_def pick_random_Nil extract_tei_def create_bow_Nil output_bow_Nil)
qed

theorem get_files_missing_root_witness:
  "get_files (tree locked_root) ''/dbnl'' = [] \<and>
   main locked_root [''bow_dbnl.py'', ''/dbnl''] = Inr []"
  using get_files_missing_root [of locked_root "''/dbnl''" "''bow_dbnl.py''" "[]"]
  by (simp add: locked_root_def no_root_def)

end
